theory Spec2Isabelle
  imports Complex_Main "HOL-Library.Word" "HOL-Library.Log_Nat" "HOL-Library.Multiset"
begin

section \<open>The save-image route handler\<close>

text \<open>
  The handler \<^verbatim>\<open>POST\<close> of the route \<^verbatim>\<open>/api/save-image\<close> reads the request body as JSON,
  takes its \<^verbatim>\<open>image\<close> property, draws 16 random bytes for the file name, strips the
  data-URL prefix, decodes the rest as base64 and writes the buffer below
  \<^verbatim>\<open>public/captured-photos\<close>. Everything runs inside one \<^verbatim>\<open>try\<close>; the \<^verbatim>\<open>catch\<close> answers
  with status 500.

  JavaScript strings are modelled as \<^typ>\<open>string\<close>; a data URL is ASCII text. JSON numbers
  are finite, so a rational stands for each.
\<close>

type_synonym byte = "8 word"

datatype json =
    JNull
  | JBool bool
  | JNum rat
  | JStr string
  | JArr "json list"
  | JObj "(string \<times> json) list"

datatype error = SyntaxError | TypeError | IOError | DimensionsError

text \<open>
  \<^verbatim>\<open>const { image } = data\<close>: destructuring \<^verbatim>\<open>null\<close> throws; an object yields its
  property (\<^verbatim>\<open>JSON.parse\<close> keeps the last of several equal keys) or \<^verbatim>\<open>undefined\<close>
  (\<open>None\<close>); booleans, numbers, strings and arrays have no property \<^verbatim>\<open>image\<close>.
\<close>

fun destructure_image :: "json \<Rightarrow> error + json option" where
  "destructure_image JNull = Inl TypeError"
| "destructure_image (JObj kvs) = Inr (map_of (rev kvs) ''image'')"
| "destructure_image (JBool b) = Inr None"
| "destructure_image (JNum n) = Inr None"
| "destructure_image (JStr s) = Inr None"
| "destructure_image (JArr xs) = Inr None"

text \<open>\<^verbatim>\<open>crypto.randomBytes(n)\<close> reads \<open>n\<close> bytes from the entropy source.\<close>

definition randomBytes :: "(nat \<Rightarrow> byte) \<Rightarrow> nat \<Rightarrow> byte list" where
  "randomBytes src n = map src [0..<n]"

definition hex_digit :: "nat \<Rightarrow> char" where
  "hex_digit n = ''0123456789abcdef'' ! n"

definition hex_byte :: "byte \<Rightarrow> string" where
  "hex_byte b = [hex_digit (unat b div 16), hex_digit (unat b mod 16)]"

text \<open>\<^verbatim>\<open>buf.toString("hex")\<close>: two lowercase digits per byte.\<close>

definition toString_hex :: "byte list \<Rightarrow> string" where
  "toString_hex bs = concat (map hex_byte bs)"

text \<open>The class \<^verbatim>\<open>\w\<close> of a regular expression without flags: \<^verbatim>\<open>[A-Za-z0-9_]\<close>.\<close>

definition is_word :: "char \<Rightarrow> bool" where
  "is_word c \<longleftrightarrow>
     c \<in> set ''abcdefghijklmnopqrstuvwxyzABCDEFGHIJKLMNOPQRSTUVWXYZ0123456789_''"

fun strip_literal :: "string \<Rightarrow> string \<Rightarrow> string option" where
  "strip_literal [] s = Some s"
| "strip_literal (p # ps) [] = None"
| "strip_literal (p # ps) (c # cs) = (if p = c then strip_literal ps cs else None)"

text \<open>
  \<^verbatim>\<open>s.replace(/^data:image\/\w+;base64,/, "")\<close>. The greedy \<^verbatim>\<open>\w+\<close> takes the longest run
  of word characters; a shorter run would have to be followed by \<^verbatim>\<open>;\<close>, which is no
  word character, so backtracking finds nothing more. Without a match the string is
  returned as it is.
\<close>

definition replace_data_url :: "string \<Rightarrow> string" where
  "replace_data_url s =
     (case strip_literal ''data:image/'' s of
        None \<Rightarrow> s
      | Some r \<Rightarrow>
          (if takeWhile is_word r = [] then s
           else (case strip_literal '';base64,'' (dropWhile is_word r) of
                   None \<Rightarrow> s
                 | Some payload \<Rightarrow> payload)))"

text \<open>
  \<^verbatim>\<open>image.replace(...)\<close> on what the destructuring gave: only a string has the method.
  On \<^verbatim>\<open>undefined\<close> and \<^verbatim>\<open>null\<close> the property access throws; on every other JSON value
  \<^verbatim>\<open>image.replace\<close> is not a function.
\<close>

fun image_replace :: "json option \<Rightarrow> error + string" where
  "image_replace (Some (JStr s)) = Inr (replace_data_url s)"
| "image_replace v = Inl TypeError"

text \<open>
  \<^verbatim>\<open>Buffer.from(base64Data, "base64")\<close> is Node's decoder; it does not throw on a string.
  The buffer is kept as the text it was decoded from.
\<close>

datatype buffer = Buffer_from_base64 string

text \<open>
  What the handler touches outside itself: the entropy source, the working directory,
  and the files below it. \<open>writable\<close> says whether \<^verbatim>\<open>writeFile\<close> into
  \<^verbatim>\<open>public/captured-photos\<close> succeeds (the directory exists and accepts the file); a
  path is the list of the segments given to \<^verbatim>\<open>join\<close>.
\<close>

record world =
  entropy :: "nat \<Rightarrow> byte"
  cwd :: string
  writable :: bool
  files :: "string list \<rightharpoonup> buffer"

definition writeFile :: "string list \<Rightarrow> buffer \<Rightarrow> world \<Rightarrow> error + world" where
  "writeFile path data w =
     (if writable w then Inr (w\<lparr>files := (files w)(path \<mapsto> data)\<rparr>) else Inl IOError)"




text \<open>
  The \<^verbatim>\<open>try\<close> block. The request body is \<open>None\<close> when \<^verbatim>\<open>req.json()\<close> rejects (the body is
  not JSON). The statements run in the order of the source, so the random bytes are
  drawn before \<^verbatim>\<open>image.replace\<close> can throw.
\<close>

definition try_block :: "world \<Rightarrow> json option \<Rightarrow> (error + string) \<times> world" where
  "try_block w req =
     (case req of
        None \<Rightarrow> (Inl SyntaxError, w)
      | Some data \<Rightarrow>
          (case destructure_image data of
             Inl e \<Rightarrow> (Inl e, w)
           | Inr img \<Rightarrow>
               (let randomName = toString_hex (randomBytes (entropy w) 16);
                    w1 = w\<lparr>entropy := (\<lambda>i. entropy w (i + 16))\<rparr>;
                    fileName = randomName @ ''.png''
                in (case image_replace img of
                      Inl e \<Rightarrow> (Inl e, w1)
                    | Inr base64Data \<Rightarrow>
                        (let buffer = Buffer_from_base64 base64Data;
                             publicPath = [cwd w1, ''public'', ''captured-photos'']
                         in (case writeFile (publicPath @ [fileName]) buffer w1 of
                               Inl e \<Rightarrow> (Inl e, w1)
                             | Inr w2 \<Rightarrow> (Inr fileName, w2)))))))"












section \<open>The overlay renderer of the FaceDetection component\<close>

subsection \<open>Numbers\<close>

text \<open>
  A JavaScript Number is an IEEE binary64 value. The confidences, widths and coordinates
  of the renderer are finite, so each is modelled as the rational it denotes, and an
  arithmetic operation is the exact operation followed by rounding to the nearest
  binary64 value, ties to the even significand. \<open>ilog2 a\<close> is the exponent of the
  binade of \<open>a > 0\<close>. Overflow to infinity (from \<open>2 ^ 1024\<close> on) and NaN are outside the
  model.
\<close>

definition ilog2 :: "rat \<Rightarrow> int" where
  "ilog2 a =
     (let (p, q) = quotient_of a; d = bitlen p - bitlen q
      in if 2 powi d \<le> a then d else d - 1)"

definition round_even :: "rat \<Rightarrow> int" where
  "round_even x =
     (let n = \<lfloor>x\<rfloor>; r = x - of_int n
      in if r < 1 / 2 then n else if 1 / 2 < r then n + 1 else if even n then n else n + 1)"

definition fl :: "rat \<Rightarrow> rat" where
  "fl x =
     (if x = 0 then 0
      else (let e = max (ilog2 \<bar>x\<bar>) (- 1022); ulp = 2 powi (e - 52)
            in of_int (round_even (x / ulp)) * ulp))"

definition fmul :: "rat \<Rightarrow> rat \<Rightarrow> rat" where
  "fmul a b = fl (a * b)"

definition fsub :: "rat \<Rightarrow> rat \<Rightarrow> rat" where
  "fsub a b = fl (a - b)"

definition fdiv :: "rat \<Rightarrow> rat \<Rightarrow> rat" where
  "fdiv a b = fl (a / b)"

text \<open>
  \<^verbatim>\<open>Math.round\<close>: the nearest integer, a tie going towards plus infinity. The result of
  the renderer lies between 0 and 100, where a Number holds every integer.
\<close>

definition Math_round :: "rat \<Rightarrow> int" where
  "Math_round x = \<lfloor>x + 1 / 2\<rfloor>"

definition digit_char :: "nat \<Rightarrow> char" where
  "digit_char n = ''0123456789'' ! n"

fun digits :: "nat \<Rightarrow> string" where
  "digits n = (if n < 10 then [digit_char n] else digits (n div 10) @ [digit_char (n mod 10)])"

text \<open>
  An integral Number in a template literal: its decimal digits (below \<open>10 ^ 21\<close>, where
  JavaScript changes to exponent notation).
\<close>

definition Number_toString :: "int \<Rightarrow> string" where
  "Number_toString n = (if n < 0 then CHR ''-'' # digits (nat (- n)) else digits (nat n))"

subsection \<open>The dominant expression\<close>

text \<open>
  \<^verbatim>\<open>Object.entries(expressions)\<close> is the list of pairs of label and confidence, in the
  iteration order of the mapping. \<^verbatim>\<open>reduce\<close> without an initial value starts from the
  first element and throws a TypeError on an empty array (\<open>None\<close>).
\<close>

type_synonym entry = "string \<times> rat"

fun reduce :: "('a \<Rightarrow> 'a \<Rightarrow> 'a) \<Rightarrow> 'a list \<Rightarrow> 'a option" where
  "reduce f [] = None"
| "reduce f (x # xs) = Some (foldl f x xs)"

text \<open>The callback \<^verbatim>\<open>(a, b) => a[1] > b[1] ? a : b\<close>.\<close>

definition more_confident :: "entry \<Rightarrow> entry \<Rightarrow> entry" where
  "more_confident a b = (if snd a > snd b then a else b)"

definition dominantExpression :: "entry list \<Rightarrow> entry option" where
  "dominantExpression entries = reduce more_confident entries"

text \<open>The label text: \<^verbatim>\<open>`${d[0]}: ${Math.round(d[1] * 100)}%`\<close>.\<close>

definition expression_text :: "entry \<Rightarrow> string" where
  "expression_text d =
     fst d @ '': '' @ Number_toString (Math_round (fmul (snd d) 100)) @ ''%''"

subsection \<open>The drawing surface\<close>

text \<open>
  A detection result holds the face's box and the expression confidences. The surface
  records what has been painted on it since it was last cleared, oldest first, together
  with the state of its 2D context. \<open>DrawDetections b w h\<close> is what
  \<^verbatim>\<open>faceapi.draw.drawDetections\<close> paints for the detection \<open>b\<close> resized to \<open>w\<close> by \<open>h\<close>. The
  colours of the context are held as the context reports them.
\<close>

datatype face_box = Box rat rat rat rat

record face =
  detection :: face_box
  score :: rat
  expressions :: "entry list"

datatype draw_op =
    DrawDetections face_box nat nat
  | StrokeText string rat rat
  | FillText string rat rat

record canvas =
  width :: nat
  height :: nat
  context2d :: bool
  painted :: "draw_op list"
  font :: string
  fillStyle :: string
  strokeStyle :: string
  lineWidth :: rat

text \<open>\<^verbatim>\<open>context.clearRect(0, 0, canvas.width, canvas.height)\<close> erases the whole surface.\<close>

definition clearRect :: "canvas \<Rightarrow> canvas" where
  "clearRect c = c\<lparr>painted := []\<rparr>"

text \<open>
  Assigning \<^verbatim>\<open>canvas.width\<close> or \<^verbatim>\<open>canvas.height\<close> erases the surface and resets the
  context to its defaults, also when the value does not change.
\<close>

definition set_size :: "nat \<Rightarrow> nat \<Rightarrow> canvas \<Rightarrow> canvas" where
  "set_size w h c =
     c\<lparr>width := w, height := h, painted := [], font := ''10px sans-serif'',
       fillStyle := ''#000000'', strokeStyle := ''#000000'', lineWidth := 1\<rparr>"

definition paint :: "draw_op \<Rightarrow> canvas \<Rightarrow> canvas" where
  "paint op c = c\<lparr>painted := painted c @ [op]\<rparr>"

text \<open>
  \<^verbatim>\<open>faceapi.draw.drawDetections(canvas, [resizedDetection])\<close> strokes the box with the
  library's box colour and line width, and, when the score of the detection is not
  zero, fills a label with the score in the library's font and font colour. It leaves
  these settings on the context.
\<close>

definition drawDetections :: "face \<Rightarrow> nat \<Rightarrow> nat \<Rightarrow> canvas \<Rightarrow> canvas" where
  "drawDetections f w h c =
     (let c1 = (paint (DrawDetections (detection f) w h) c)
                 \<lparr>strokeStyle := ''#0000ff'', lineWidth := 2\<rparr>
      in if score f = 0 then c1
         else c1\<lparr>font := ''14px Georgia'', fillStyle := ''#ffffff''\<rparr>)"

text \<open>
  The branch \<^verbatim>\<open>if (detection)\<close> of \<^verbatim>\<open>detectExpressions\<close>, from \<^verbatim>\<open>clearRect\<close> to \<^verbatim>\<open>fillText\<close>.
  \<open>measureText font text\<close> is the width the browser measures; \<open>(vw, vh)\<close> are
  \<^verbatim>\<open>video.videoWidth\<close> and \<^verbatim>\<open>video.videoHeight\<close>, which \<^verbatim>\<open>matchDimensions(canvas, video, true)\<close>
  assigns to the canvas and returns. \<^verbatim>\<open>faceapi.resizeResults\<close> throws when one of the two
  dimensions is zero: the surface has been erased and sized by then, and nothing is
  painted. An empty list of entries makes \<^verbatim>\<open>reduce\<close> throw after the box has been
  painted.
\<close>

definition draw_face ::
  "(string \<Rightarrow> string \<Rightarrow> rat) \<Rightarrow> nat \<times> nat \<Rightarrow> face \<Rightarrow> canvas \<Rightarrow> error option \<times> canvas" where
  "draw_face measureText dims f c =
     (let c1 = clearRect c;
          c2 = set_size (fst dims) (snd dims) c1
      in if fst dims = 0 \<or> snd dims = 0 then (Some DimensionsError, c2)
         else (let c3 = drawDetections f (fst dims) (snd dims) c2
               in (case dominantExpression (expressions f) of
                     None \<Rightarrow> (Some TypeError, c3)
                   | Some d \<Rightarrow>
                       (let c4 = c3\<lparr>font := ''24px Arial'', fillStyle := ''#00ff00'',
                                   strokeStyle := ''#000000'', lineWidth := 3\<rparr>;
                            text = expression_text d;
                            textWidth = measureText (font c4) text;
                            x = fdiv (fsub (of_nat (width c4)) textWidth) 2
                        in (None,
                            paint (FillText text x 50) (paint (StrokeText text x 50) c4))))))"

text \<open>A text metric for examples: twelve pixels for each character.\<close>

definition sample_metrics :: "string \<Rightarrow> string \<Rightarrow> rat" where
  "sample_metrics fnt text = 12 * of_nat (length text)"

text \<open>The mapping \<^verbatim>\<open>{happy: 0.9, neutral: 0.05, sad: 0.05}\<close>; a literal denotes the nearest Number.\<close>

definition sample_expressions :: "entry list" where
  "sample_expressions =
     [(''happy'', fl (9 / 10)), (''neutral'', fl (1 / 20)), (''sad'', fl (1 / 20))]"

definition sample_face :: face where
  "sample_face =
     \<lparr>detection = Box 100 80 200 240, score = 15 / 16, expressions = sample_expressions\<rparr>"

section \<open>The FaceDetection component as a transition system\<close>

text \<open>
  JavaScript runs one handler at a time, each to its next \<^verbatim>\<open>await\<close> or to its end. The
  component is modelled by its state between handlers and by one step for each thing
  that can happen to it: a promise it awaits settles, the video element fires \<^verbatim>\<open>play\<close>,
  the browser runs the requested animation frames, React unmounts the view.

  The state holds the three \<^verbatim>\<open>useState\<close> values, the video and canvas elements behind
  the refs (the refs are non-null exactly while the view is mounted, both elements
  being rendered unconditionally), the pending asynchronous calls, the variable
  \<^verbatim>\<open>animationFrameId\<close> of the current run of the detection effect, the camera streams
  whose tracks have not been stopped, and the messages given to \<^verbatim>\<open>console.log\<close> and
  \<^verbatim>\<open>console.error\<close>.
\<close>

record face_view =
  mounted :: bool
  modelsLoaded :: bool
  stream :: "nat option"
  isVideoPlaying :: bool
  srcObject :: "nat option"
  videoWidth :: nat
  videoHeight :: nat
  overlay :: canvas
  loading :: nat
  requesting :: nat
  in_flight :: nat
  scheduled :: "nat list"
  next_frame_id :: nat
  animationFrameId :: "nat option"
  live_streams :: "nat list"
  console :: "string list"

text \<open>
  The outcome of \<^verbatim>\<open>detectSingleFace(...).withFaceExpressions()\<close>: the promise rejects, or
  resolves to \<^verbatim>\<open>undefined\<close>, or resolves to a result.
\<close>

datatype inference = Threw | NoFace | Face face

datatype event =
    ModelsSettled bool bool
  | CameraGranted nat nat nat
  | CameraDenied
  | VideoPlay
  | DetectionSettled inference
  | AnimationFrame
  | Unmount

definition console_log :: "string \<Rightarrow> face_view \<Rightarrow> face_view" where
  "console_log msg s = s\<lparr>console := console s @ [msg]\<rparr>"

text \<open>\<^verbatim>\<open>stream.getTracks().forEach((track) => track.stop())\<close> behind \<^verbatim>\<open>if (stream)\<close>.\<close>

fun stop_tracks :: "nat option \<Rightarrow> face_view \<Rightarrow> face_view" where
  "stop_tracks None s = s"
| "stop_tracks (Some sid) s = s\<lparr>live_streams := removeAll sid (live_streams s)\<rparr>"

text \<open>
  \<^verbatim>\<open>detectExpressions\<close> up to its \<^verbatim>\<open>await\<close>. \<open>playing\<close> is the \<^verbatim>\<open>isVideoPlaying\<close> of the render
  whose effect created the function.
\<close>

definition detectExpressions :: "bool \<Rightarrow> face_view \<Rightarrow> face_view" where
  "detectExpressions playing s =
     (if \<not> mounted s \<or> \<not> playing
      then console_log ''Video or canvas not ready, or video not playing'' s
      else (console_log ''Starting detection...'' s)\<lparr>in_flight := in_flight s + 1\<rparr>)"

text \<open>
  \<^verbatim>\<open>animationFrameId = requestAnimationFrame(detectExpressions)\<close>; the ids start at 1. The
  variable written is the one of the effect run that started the iterations. That run is
  the current one: iterations start only when both dependencies are true, and neither
  is ever set back, so the effect does not run again afterwards.
\<close>

definition requestAnimationFrame :: "face_view \<Rightarrow> face_view" where
  "requestAnimationFrame s =
     s\<lparr>scheduled := scheduled s @ [next_frame_id s],
       animationFrameId := Some (next_frame_id s),
       next_frame_id := next_frame_id s + 1\<rparr>"

text \<open>
  \<^verbatim>\<open>detectExpressions\<close> after its \<^verbatim>\<open>await\<close>. The locals \<^verbatim>\<open>video\<close> and \<^verbatim>\<open>canvas\<close> were read from
  the refs before the \<^verbatim>\<open>await\<close>, so this part does not look at the refs again. A rejected
  inference, a missing 2D context, a throwing \<^verbatim>\<open>resizeResults\<close> and a throwing \<^verbatim>\<open>reduce\<close>
  leave the function before the next frame is requested; only the last of them comes
  after the message \<^verbatim>\<open>All expressions:\<close>.
\<close>

definition detectExpressions_resume ::
  "(string \<Rightarrow> string \<Rightarrow> rat) \<Rightarrow> inference \<Rightarrow> face_view \<Rightarrow> face_view" where
  "detectExpressions_resume measureText r s =
     (case r of
        Threw \<Rightarrow> s
      | NoFace \<Rightarrow> requestAnimationFrame (console_log ''No face detected'' s)
      | Face f \<Rightarrow>
          (let s1 = console_log ''Face detected!'' s
           in if \<not> context2d (overlay s1) then s1
              else (case draw_face measureText (videoWidth s1, videoHeight s1) f (overlay s1) of
                      (Some e, c) \<Rightarrow>
                        (if e = TypeError
                         then console_log ''All expressions:'' (s1\<lparr>overlay := c\<rparr>)
                         else s1\<lparr>overlay := c\<rparr>)
                    | (None, c) \<Rightarrow>
                        requestAnimationFrame
                          (console_log ''Dominant expression:''
                            (console_log ''All expressions:'' (s1\<lparr>overlay := c\<rparr>))))))"

text \<open>
  The detection effect, with the dependencies \<^verbatim>\<open>[modelsLoaded, isVideoPlaying]\<close>: its
  cleanup, and its body, which declares a fresh \<^verbatim>\<open>animationFrameId\<close>.
\<close>

definition loop_cleanup :: "face_view \<Rightarrow> face_view" where
  "loop_cleanup s =
     (case animationFrameId s of
        None \<Rightarrow> s
      | Some i \<Rightarrow> s\<lparr>scheduled := removeAll i (scheduled s)\<rparr>)"

definition loop_effect :: "face_view \<Rightarrow> face_view" where
  "loop_effect s =
     (let s1 = s\<lparr>animationFrameId := None\<rparr>
      in if modelsLoaded s1 \<and> isVideoPlaying s1
         then detectExpressions (isVideoPlaying s1) (console_log ''Starting detection loop'' s1)
         else s1)"

text \<open>The webcam effect, with the dependency \<^verbatim>\<open>[modelsLoaded]\<close>, and its \<^verbatim>\<open>startVideo\<close>.\<close>

definition startVideo :: "face_view \<Rightarrow> face_view" where
  "startVideo s = (console_log ''Starting video...'' s)\<lparr>requesting := requesting s + 1\<rparr>"

definition webcam_effect :: "face_view \<Rightarrow> face_view" where
  "webcam_effect s = (if modelsLoaded s then startVideo s else s)"

text \<open>
  \<^verbatim>\<open>setModelsLoaded(true)\<close> and \<^verbatim>\<open>setIsVideoPlaying(true)\<close>: nothing happens on an unmounted
  view or when the value is already true; otherwise React renders again, runs the
  cleanups of the effects whose dependencies changed and then their bodies, in the
  order of the source.
\<close>

definition setModelsLoaded_true :: "face_view \<Rightarrow> face_view" where
  "setModelsLoaded_true s =
     (if \<not> mounted s \<or> modelsLoaded s then s
      else loop_effect (webcam_effect (loop_cleanup (s\<lparr>modelsLoaded := True\<rparr>))))"

definition setIsVideoPlaying_true :: "face_view \<Rightarrow> face_view" where
  "setIsVideoPlaying_true s =
     (if \<not> mounted s \<or> isVideoPlaying s then s
      else loop_effect (loop_cleanup (s\<lparr>isVideoPlaying := True\<rparr>)))"

text \<open>\<^verbatim>\<open>handleVideoPlay\<close>; \<^verbatim>\<open>videoWidth || 640\<close> is 640 when the width is 0.\<close>

definition handleVideoPlay :: "face_view \<Rightarrow> face_view" where
  "handleVideoPlay s =
     (let s1 = console_log ''Video started playing'' s;
          w = (if videoWidth s1 = 0 then 640 else videoWidth s1);
          h = (if videoHeight s1 = 0 then 480 else videoHeight s1)
      in setIsVideoPlaying_true (s1\<lparr>overlay := set_size w h (overlay s1)\<rparr>))"

text \<open>
  The first render and its effects: \<^verbatim>\<open>loadModels()\<close> is started; the other two effects
  find \<^verbatim>\<open>modelsLoaded\<close> false. A new canvas is 300 by 150.
\<close>

definition initial_stream :: "nat option" where
  "initial_stream = None"

definition new_canvas :: canvas where
  "new_canvas =
     \<lparr>width = 300, height = 150, context2d = True, painted = [], font = ''10px sans-serif'',
      fillStyle = ''#000000'', strokeStyle = ''#000000'', lineWidth = 1\<rparr>"

definition mount :: face_view where
  "mount =
     \<lparr>mounted = True, modelsLoaded = False, stream = initial_stream, isVideoPlaying = False,
      srcObject = None, videoWidth = 0, videoHeight = 0, overlay = new_canvas,
      loading = 1, requesting = 0, in_flight = 0, scheduled = [], next_frame_id = 1,
      animationFrameId = None, live_streams = [],
      console = [''Starting to load models...'']\<rparr>"

text \<open>
  The cleanup of the model-loading effect. The effect has the dependency array \<^verbatim>\<open>[]\<close>,
  so it ran once, after the first render, and the \<^verbatim>\<open>stream\<close> its cleanup reads is that
  render's: the initial state.
\<close>

definition mount_cleanup :: "face_view \<Rightarrow> face_view" where
  "mount_cleanup s = stop_tracks initial_stream s"

text \<open>
  One step. A settling promise with no call waiting for it is no step of the system
  and leaves the state as it is; so do \<^verbatim>\<open>play\<close> and unmounting on a view that is not
  mounted. The animation frame runs every callback requested and not cancelled; each
  is the \<^verbatim>\<open>detectExpressions\<close> of an effect that ran with \<^verbatim>\<open>isVideoPlaying\<close> true.
\<close>

fun step :: "(string \<Rightarrow> string \<Rightarrow> rat) \<Rightarrow> event \<Rightarrow> face_view \<Rightarrow> face_view" where
  "step m (ModelsSettled detector_ok expression_ok) s =
     (if loading s = 0 then s
      else (let s1 = s\<lparr>loading := loading s - 1\<rparr>
            in if detector_ok \<and> expression_ok
               then setModelsLoaded_true (console_log ''Models loaded successfully!'' s1)
               else console_log ''Error loading models:'' s1))"
| "step m (CameraGranted sid w h) s =
     (if requesting s = 0 then s
      else (let s1 = s\<lparr>requesting := requesting s - 1, live_streams := sid # live_streams s\<rparr>
            in if mounted s1
               then console_log ''Video stream set successfully!''
                      (s1\<lparr>srcObject := Some sid, videoWidth := w, videoHeight := h,
                          stream := Some sid\<rparr>)
               else s1))"
| "step m CameraDenied s =
     (if requesting s = 0 then s
      else console_log ''Error accessing webcam:'' (s\<lparr>requesting := requesting s - 1\<rparr>))"
| "step m VideoPlay s = (if mounted s then handleVideoPlay s else s)"
| "step m (DetectionSettled r) s =
     (if in_flight s = 0 then s
      else detectExpressions_resume m r (s\<lparr>in_flight := in_flight s - 1\<rparr>))"
| "step m AnimationFrame s =
     fold (\<lambda>i. detectExpressions True) (scheduled s) (s\<lparr>scheduled := []\<rparr>)"
| "step m Unmount s =
     (if mounted s then (loop_cleanup (mount_cleanup s))\<lparr>mounted := False\<rparr> else s)"

fun run :: "(string \<Rightarrow> string \<Rightarrow> rat) \<Rightarrow> event list \<Rightarrow> face_view \<Rightarrow> face_view" where
  "run m [] s = s"
| "run m (e # es) s = run m es (step m e s)"

text \<open>The states a trace passes through, the starting state first.\<close>

fun history :: "(string \<Rightarrow> string \<Rightarrow> rat) \<Rightarrow> event list \<Rightarrow> face_view \<Rightarrow> face_view list" where
  "history m [] s = [s]"
| "history m (e # es) s = s # history m es (step m e s)"

text \<open>How often a sequence of truth values changes from false to true.\<close>

fun rises :: "bool list \<Rightarrow> nat" where
  "rises (a # b # bs) = (if \<not> a \<and> b then 1 else 0) + rises (b # bs)"
| "rises bs = 0"

text \<open>The JSX shows the overlay \<^verbatim>\<open>Loading models...\<close> under \<^verbatim>\<open>!modelsLoaded\<close>.\<close>

definition shows_loading :: "face_view \<Rightarrow> bool" where
  "shows_loading s \<longleftrightarrow> \<not> modelsLoaded s"

fun is_ModelsSettled :: "event \<Rightarrow> bool" where
  "is_ModelsSettled (ModelsSettled a b) = True"
| "is_ModelsSettled e = False"

subsection \<open>Two invariants of the view\<close>

text \<open>
  Before readiness nothing of the detection loop exists: no inference is awaited, no
  frame is requested, and neither loop message has been logged.
\<close>

definition idle :: "face_view \<Rightarrow> bool" where
  "idle s \<longleftrightarrow>
     \<not> modelsLoaded s \<and> in_flight s = 0 \<and> scheduled s = []
     \<and> ''Starting detection loop'' \<notin> set (console s)
     \<and> ''Starting detection...'' \<notin> set (console s)"

text \<open>
  At most one inference is awaited or one frame requested, and only once both flags are
  true.
\<close>

definition single_chain :: "face_view \<Rightarrow> bool" where
  "single_chain s \<longleftrightarrow>
     in_flight s + length (scheduled s) \<le> 1
     \<and> (modelsLoaded s \<and> isVideoPlaying s \<or> in_flight s + length (scheduled s) = 0)"

section \<open>The camera stream of the WebcamCapture component\<close>

text \<open>
  The same kind of model for the stream handling of the second component: the state
  values \<^verbatim>\<open>stream\<close>, \<^verbatim>\<open>capturedImage\<close> and \<^verbatim>\<open>savedFileName\<close>, the pending \<^verbatim>\<open>getUserMedia\<close>
  calls and the streams with live tracks. The video element is rendered only while no
  image is captured, so \<^verbatim>\<open>videoRef.current\<close> is non-null exactly then; the element that
  comes back after a retake is a new one, without a \<^verbatim>\<open>srcObject\<close>. The save button is not
  part of this model.
\<close>

record capture_view =
  mounted_c :: bool
  stream_c :: "nat option"
  capturedImage :: "string option"
  savedFileName :: "string option"
  srcObject_c :: "nat option"
  requesting_c :: nat
  live_streams_c :: "nat list"

datatype capture_event =
    Granted nat
  | Denied
  | TakePhoto string
  | Retake
  | Leave

definition videoRef_current :: "capture_view \<Rightarrow> bool" where
  "videoRef_current s \<longleftrightarrow> mounted_c s \<and> capturedImage s = None"

fun stop_tracks_c :: "nat option \<Rightarrow> capture_view \<Rightarrow> capture_view" where
  "stop_tracks_c None s = s"
| "stop_tracks_c (Some sid) s = s\<lparr>live_streams_c := removeAll sid (live_streams_c s)\<rparr>"

text \<open>
  \<^verbatim>\<open>startVideo\<close> up to its \<^verbatim>\<open>await\<close>; \<open>closure_stream\<close> is the \<^verbatim>\<open>stream\<close> of the render that
  created the function.
\<close>

definition startVideo_c :: "nat option \<Rightarrow> capture_view \<Rightarrow> capture_view" where
  "startVideo_c closure_stream s =
     (let s1 = stop_tracks_c closure_stream s in s1\<lparr>requesting_c := requesting_c s1 + 1\<rparr>)"

definition first_render_c :: capture_view where
  "first_render_c =
     \<lparr>mounted_c = True, stream_c = None, capturedImage = None, savedFileName = None,
      srcObject_c = None, requesting_c = 0, live_streams_c = []\<rparr>"

text \<open>
  The values of the first render are the initial values of \<^verbatim>\<open>useState\<close>; its effect calls
  that render's \<^verbatim>\<open>startVideo\<close>.
\<close>

definition mount_c :: capture_view where
  "mount_c = startVideo_c (stream_c first_render_c) first_render_c"

text \<open>
  One step. \<^verbatim>\<open>Take Photo\<close> can be clicked while the video is shown and \<^verbatim>\<open>Retake Photo\<close>
  while an image is shown; the click handlers are those of the latest render, so the
  \<^verbatim>\<open>startVideo\<close> called by \<^verbatim>\<open>retake\<close> reads the current \<^verbatim>\<open>stream\<close>. The cleanup of the mount
  effect reads the \<^verbatim>\<open>stream\<close> of the first render.
\<close>

fun step_c :: "capture_event \<Rightarrow> capture_view \<Rightarrow> capture_view" where
  "step_c (Granted sid) s =
     (if requesting_c s = 0 then s
      else (let s1 = s\<lparr>requesting_c := requesting_c s - 1,
                       live_streams_c := sid # live_streams_c s\<rparr>
            in if videoRef_current s1
               then s1\<lparr>srcObject_c := Some sid, stream_c := Some sid\<rparr>
               else s1))"
| "step_c Denied s =
     (if requesting_c s = 0 then s else s\<lparr>requesting_c := requesting_c s - 1\<rparr>)"
| "step_c (TakePhoto imageDataUrl) s =
     (if videoRef_current s
      then s\<lparr>capturedImage := Some imageDataUrl, savedFileName := None,
             srcObject_c := None\<rparr>
      else s)"
| "step_c Retake s =
     (if mounted_c s \<and> capturedImage s \<noteq> None
      then startVideo_c (stream_c s)
             (s\<lparr>capturedImage := None, savedFileName := None, srcObject_c := None\<rparr>)
      else s)"
| "step_c Leave s =
     (if mounted_c s
      then (stop_tracks_c (stream_c first_render_c) s)\<lparr>mounted_c := False\<rparr>
      else s)"

fun run_c :: "capture_event list \<Rightarrow> capture_view \<Rightarrow> capture_view" where
  "run_c [] s = s"
| "run_c (e # es) s = run_c es (step_c e s)"

text \<open>
  Example traces. The models load, the camera is granted, the video plays and the first
  inference is awaited; then either a face is found, a frame passes and the second
  inference finds none, or the view is unmounted while the first inference is awaited.
\<close>

definition loop_started :: "event list" where
  "loop_started = [ModelsSettled True True, CameraGranted 1 640 480, VideoPlay]"

definition face_then_no_face :: face_view where
  "face_then_no_face =
     run sample_metrics
       (loop_started @ [DetectionSettled (Face sample_face), AnimationFrame,
                        DetectionSettled NoFace])
       mount"

definition unmounted_mid_flight :: face_view where
  "unmounted_mid_flight = run sample_metrics (loop_started @ [Unmount]) mount"

section \<open>Proofs about the handler\<close>

subsection \<open>Facts about the file name and the prefix\<close>












lemma try_block_unwritable:
  assumes "map_of (rev kvs) ''image'' = Some (JStr s)" and "\<not> writable w"
  shows "fst (try_block w (Some (JObj kvs))) = Inl IOError"
  using assms by (simp add: try_block_def writeFile_def Let_def)





subsection \<open>The claims about the handler\<close>









section \<open>Proofs about the renderer\<close>

subsection \<open>The reduction keeps the last of the largest entries\<close>

lemma more_confident_cases:
  "more_confident a b = (if snd b < snd a then a else b)"
  by (simp add: more_confident_def)

lemma foldl_more_confident:
  "\<exists>i<length (x # xs).
      foldl more_confident x xs = (x # xs) ! i
      \<and> (\<forall>j<length (x # xs). snd ((x # xs) ! j) \<le> snd ((x # xs) ! i))
      \<and> (\<forall>j<length (x # xs). i < j \<longrightarrow> snd ((x # xs) ! j) < snd ((x # xs) ! i))"
proof (induction xs rule: rev_induct)
  case Nil
  show ?case by simp
next
  case (snoc y xs)
  define zs where "zs = x # xs"
  from snoc obtain i where i: "i < length zs"
    and best: "foldl more_confident x xs = zs ! i"
    and upper: "\<forall>j<length zs. snd (zs ! j) \<le> snd (zs ! i)"
    and later: "\<forall>j<length zs. i < j \<longrightarrow> snd (zs ! j) < snd (zs ! i)"
    unfolding zs_def by blast
  have whole: "x # xs @ [y] = zs @ [y]"
    by (simp add: zs_def)
  have step: "foldl more_confident x (xs @ [y]) = more_confident (zs ! i) y"
    by (simp add: best)
  show ?case
  proof (cases "snd y < snd (zs ! i)")
    case True
    have "more_confident (zs ! i) y = (zs @ [y]) ! i"
      using True i by (simp add: more_confident_cases nth_append)
    then have "foldl more_confident x (xs @ [y]) = (zs @ [y]) ! i"
      unfolding step .
    moreover have "\<forall>j<length (zs @ [y]). snd ((zs @ [y]) ! j) \<le> snd ((zs @ [y]) ! i)"
      using True i upper by (auto simp add: nth_append less_Suc_eq)
    moreover have "\<forall>j<length (zs @ [y]). i < j \<longrightarrow> snd ((zs @ [y]) ! j) < snd ((zs @ [y]) ! i)"
      using True i later by (auto simp add: nth_append less_Suc_eq)
    moreover have "i < length (zs @ [y])"
      using i by simp
    ultimately show ?thesis
      unfolding whole by blast
  next
    case False
    have "more_confident (zs ! i) y = (zs @ [y]) ! length zs"
      using False by (simp add: more_confident_cases)
    then have "foldl more_confident x (xs @ [y]) = (zs @ [y]) ! length zs"
      unfolding step .
    moreover have "\<forall>j<length (zs @ [y]). snd ((zs @ [y]) ! j) \<le> snd ((zs @ [y]) ! length zs)"
    proof (intro allI impI)
      fix j assume "j < length (zs @ [y])"
      then consider "j < length zs" | "j = length zs" by fastforce
      then show "snd ((zs @ [y]) ! j) \<le> snd ((zs @ [y]) ! length zs)"
      proof cases
        case 1
        with upper have "snd (zs ! j) \<le> snd (zs ! i)" by simp
        with False 1 show ?thesis by (simp add: nth_append)
      next
        case 2
        then show ?thesis by simp
      qed
    qed
    moreover have "\<forall>j<length (zs @ [y]).
        length zs < j \<longrightarrow> snd ((zs @ [y]) ! j) < snd ((zs @ [y]) ! length zs)"
      by simp
    moreover have "length zs < length (zs @ [y])"
      by simp
    ultimately show ?thesis
      unfolding whole by blast
  qed
qed

lemma dominant_last_maximum:
  assumes "entries \<noteq> []"
  shows "\<exists>i<length entries.
           dominantExpression entries = Some (entries ! i)
           \<and> (\<forall>j<length entries. snd (entries ! j) \<le> snd (entries ! i))
           \<and> (\<forall>j<length entries. i < j \<longrightarrow> snd (entries ! j) < snd (entries ! i))"
proof -
  from assms obtain x xs where "entries = x # xs"
    by (cases entries) simp_all
  then show ?thesis
    using foldl_more_confident [of x xs] by (simp add: dominantExpression_def)
qed

subsection \<open>The numbers of the example\<close>

lemma fl_nine_tenths: "fl (9 / 10) = 8106479329266893 / 9007199254740992"
  by code_simp

lemma fl_one_twentieth: "fl (1 / 20) = 3602879701896397 / 72057594037927936"
  by code_simp

lemma happy_text: "expression_text (''happy'', fl (9 / 10)) = ''happy: 90%''"
  by code_simp

lemma dominant_of_sample:
  assumes "mset entries = mset sample_expressions"
  shows "dominantExpression entries = Some (''happy'', fl (9 / 10))"
proof -
  have elems: "set entries = set sample_expressions"
    using assms by (rule mset_eq_setD)
  have "entries \<noteq> []"
    using assms by (cases entries) (simp_all add: sample_expressions_def)
  then obtain i where i: "i < length entries"
    and dom: "dominantExpression entries = Some (entries ! i)"
    and upper: "\<forall>j<length entries. snd (entries ! j) \<le> snd (entries ! i)"
    using dominant_last_maximum by blast
  have "(''happy'', fl (9 / 10)) \<in> set sample_expressions"
    by (simp add: sample_expressions_def)
  then have "(''happy'', fl (9 / 10)) \<in> set entries"
    unfolding elems .
  then obtain j where j: "j < length entries" and at_j: "entries ! j = (''happy'', fl (9 / 10))"
    unfolding in_set_conv_nth by blast
  from upper j have "snd (entries ! j) \<le> snd (entries ! i)"
    by blast
  then have large: "fl (9 / 10) \<le> snd (entries ! i)"
    unfolding at_j by simp
  have "entries ! i \<in> set entries"
    using i by (rule nth_mem)
  then have "entries ! i \<in> set sample_expressions"
    unfolding elems .
  then consider "entries ! i = (''happy'', fl (9 / 10))"
    | "entries ! i = (''neutral'', fl (1 / 20))"
    | "entries ! i = (''sad'', fl (1 / 20))"
    unfolding sample_expressions_def by fastforce
  then have "entries ! i = (''happy'', fl (9 / 10))"
  proof cases
    case 1
    then show ?thesis .
  next
    case 2
    with large have "fl (9 / 10) \<le> fl (1 / 20)" by simp
    then show ?thesis by (simp add: fl_nine_tenths fl_one_twentieth)
  next
    case 3
    with large have "fl (9 / 10) \<le> fl (1 / 20)" by simp
    then show ?thesis by (simp add: fl_nine_tenths fl_one_twentieth)
  qed
  with dom show ?thesis by simp
qed

lemma draw_face_dominant:
  assumes "dominantExpression (expressions f) = Some d" and "0 < vw" and "0 < vh"
  shows "fst (draw_face m (vw, vh) f c) = None"
    and "painted (snd (draw_face m (vw, vh) f c)) =
           [DrawDetections (detection f) vw vh,
            StrokeText (expression_text d)
              (fdiv (fsub (of_nat vw) (m ''24px Arial'' (expression_text d))) 2) 50,
            FillText (expression_text d)
              (fdiv (fsub (of_nat vw) (m ''24px Arial'' (expression_text d))) 2) 50]"
  using assms
  by (simp_all add: draw_face_def drawDetections_def Let_def paint_def set_size_def
      clearRect_def)

lemma draw_face_zero_dimension:
  assumes "vw = 0 \<or> vh = 0"
  shows "draw_face m (vw, vh) f c = (Some DimensionsError, set_size vw vh (clearRect c))"
  using assms by (auto simp add: draw_face_def Let_def)

subsection \<open>The claims about the renderer\<close>

text \<open>
  Claim C2, as the code has it. The dominant expression is the result of the reduction
  with the callback \<^verbatim>\<open>(a, b) => a[1] > b[1] ? a : b\<close>. It is an entry of highest confidence,
  and every entry after it in the iteration order has a strictly lower confidence: the
  accumulator is kept only when it is strictly greater, so among entries that tie for
  the highest confidence the last one wins.
\<close>

theorem dominant_is_last_maximum:
  assumes "entries \<noteq> []"
  shows "dominantExpression entries
           = reduce (\<lambda>a b. if snd a > snd b then a else b) entries
         \<and> (\<exists>i<length entries.
               dominantExpression entries = Some (entries ! i)
               \<and> (\<forall>j<length entries. snd (entries ! j) \<le> snd (entries ! i))
               \<and> (\<forall>j<length entries. i < j \<longrightarrow> snd (entries ! j) < snd (entries ! i)))"
proof -
  have "more_confident = (\<lambda>a b. if snd a > snd b then a else b)"
    by (intro ext) (simp add: more_confident_def)
  then have "dominantExpression entries
      = reduce (\<lambda>a b. if snd a > snd b then a else b) entries"
    by (simp add: dominantExpression_def)
  with dominant_last_maximum [OF assms] show ?thesis by blast
qed

theorem dominant_is_last_maximum_witness:
  "[(''happy'', 1 / 2), (''sad'', 1 / 2 :: rat)] \<noteq> []
   \<and> (\<exists>i<length [(''happy'', 1 / 2), (''sad'', 1 / 2 :: rat)].
         dominantExpression [(''happy'', 1 / 2), (''sad'', 1 / 2)]
           = Some ([(''happy'', 1 / 2), (''sad'', 1 / 2)] ! i)
         \<and> (\<forall>j<length [(''happy'', 1 / 2), (''sad'', 1 / 2 :: rat)]. i < j \<longrightarrow>
               snd ([(''happy'', 1 / 2), (''sad'', 1 / 2 :: rat)] ! j)
                 < snd ([(''happy'', 1 / 2), (''sad'', 1 / 2 :: rat)] ! i)))"
proof -
  have h: "[(''happy'', 1 / 2), (''sad'', 1 / 2 :: rat)] \<noteq> []" by simp
  show ?thesis
    using h dominant_is_last_maximum [OF h] by blast
qed

text \<open>
  Claim C2 as it is written fails on a tie: of two entries with the same confidence the
  reduction returns the second, not the first.
\<close>

theorem dominant_tie_takes_second:
  "dominantExpression [(''happy'', 1 / 2), (''sad'', 1 / 2)] = Some (''sad'', 1 / 2)"
  by (simp add: dominantExpression_def more_confident_def)

text \<open>
  Claim C9. For the mapping \<^verbatim>\<open>{happy: 0.9, neutral: 0.05, sad: 0.05}\<close>, in whatever order
  its entries are iterated, the renderer selects \<^verbatim>\<open>happy\<close>; the label is the text
  \<^verbatim>\<open>happy: 90%\<close> (label, colon, the rounded product of confidence and 100, percent sign);
  after the box, the text is stroked and then filled at height 50 and at the horizontal
  position half of the surface's width minus the measured width of the text, computed
  in Number arithmetic; with the default alignment of a context the text begins there.
  Where that arithmetic is exact, the middle of the text is the middle of the surface.
  The video frame of the detection has a positive width and height (with a zero
  dimension \<^verbatim>\<open>resizeResults\<close> throws before anything is selected or painted).
\<close>

theorem happy_90_percent:
  assumes "mset entries = mset sample_expressions" and "0 < vw" and "0 < vh"
  shows "dominantExpression entries = Some (''happy'', fl (9 / 10))
     \<and> expression_text (''happy'', fl (9 / 10)) = ''happy: 90%''
     \<and> fst (draw_face m (vw, vh) \<lparr>detection = b, score = sc, expressions = entries\<rparr> c) = None
     \<and> painted (snd (draw_face m (vw, vh) \<lparr>detection = b, score = sc, expressions = entries\<rparr> c)) =
         [DrawDetections b vw vh,
          StrokeText ''happy: 90%''
            (fdiv (fsub (of_nat vw) (m ''24px Arial'' ''happy: 90%'')) 2) 50,
          FillText ''happy: 90%''
            (fdiv (fsub (of_nat vw) (m ''24px Arial'' ''happy: 90%'')) 2) 50]
     \<and> (fsub (of_nat vw) (m ''24px Arial'' ''happy: 90%'')
           = of_nat vw - m ''24px Arial'' ''happy: 90%''
         \<and> fdiv (of_nat vw - m ''24px Arial'' ''happy: 90%'') 2
           = (of_nat vw - m ''24px Arial'' ''happy: 90%'') / 2
         \<longrightarrow> fdiv (fsub (of_nat vw) (m ''24px Arial'' ''happy: 90%'')) 2
               + m ''24px Arial'' ''happy: 90%'' / 2
             = of_nat vw / 2)"
proof -
  have dom: "dominantExpression (expressions \<lparr>detection = b, score = sc, expressions = entries\<rparr>)
      = Some (''happy'', fl (9 / 10))"
    using dominant_of_sample [OF assms(1)] by simp
  have "dominantExpression entries = Some (''happy'', fl (9 / 10))"
    using dominant_of_sample [OF assms(1)] .
  moreover note happy_text
  moreover have "fst (draw_face m (vw, vh) \<lparr>detection = b, score = sc, expressions = entries\<rparr> c) = None"
    using draw_face_dominant(1) [OF dom assms(2,3)] .
  moreover have
    "painted (snd (draw_face m (vw, vh) \<lparr>detection = b, score = sc, expressions = entries\<rparr> c)) =
         [DrawDetections b vw vh,
          StrokeText ''happy: 90%''
            (fdiv (fsub (of_nat vw) (m ''24px Arial'' ''happy: 90%'')) 2) 50,
          FillText ''happy: 90%''
            (fdiv (fsub (of_nat vw) (m ''24px Arial'' ''happy: 90%'')) 2) 50]"
    using draw_face_dominant(2) [OF dom assms(2,3), of m c] by (simp add: happy_text)
  moreover have "fsub (of_nat vw) (m ''24px Arial'' ''happy: 90%'')
           = of_nat vw - m ''24px Arial'' ''happy: 90%''
         \<and> fdiv (of_nat vw - m ''24px Arial'' ''happy: 90%'') 2
           = (of_nat vw - m ''24px Arial'' ''happy: 90%'') / 2
         \<longrightarrow> fdiv (fsub (of_nat vw) (m ''24px Arial'' ''happy: 90%'')) 2
               + m ''24px Arial'' ''happy: 90%'' / 2
             = of_nat vw / 2"
  proof (intro impI, elim conjE)
    assume sub: "fsub (of_nat vw) (m ''24px Arial'' ''happy: 90%'')
           = of_nat vw - m ''24px Arial'' ''happy: 90%''"
      and half: "fdiv (of_nat vw - m ''24px Arial'' ''happy: 90%'') 2
           = (of_nat vw - m ''24px Arial'' ''happy: 90%'') / 2"
    have "fdiv (fsub (of_nat vw) (m ''24px Arial'' ''happy: 90%'')) 2
        = (of_nat vw - m ''24px Arial'' ''happy: 90%'') / 2"
      unfolding sub half ..
    then show "fdiv (fsub (of_nat vw) (m ''24px Arial'' ''happy: 90%'')) 2
               + m ''24px Arial'' ''happy: 90%'' / 2
             = of_nat vw / 2"
      by (simp add: diff_divide_distrib)
  qed
  ultimately show ?thesis by blast
qed

lemma sample_position: "fdiv (fsub 640 120) 2 = 260"
  by code_simp

lemma sample_difference: "fsub 640 120 = 520"
  by code_simp

lemma sample_half: "fdiv 520 2 = 260"
  by code_simp

theorem happy_90_percent_witness:
  "mset [(''neutral'', fl (1 / 20)), (''happy'', fl (9 / 10)), (''sad'', fl (1 / 20))]
     = mset sample_expressions
   \<and> (0::nat) < 640 \<and> (0::nat) < 480
   \<and> dominantExpression
       [(''neutral'', fl (1 / 20)), (''happy'', fl (9 / 10)), (''sad'', fl (1 / 20))]
     = Some (''happy'', fl (9 / 10))
   \<and> painted (snd (draw_face sample_metrics (640, 480)
        \<lparr>detection = Box 100 80 200 240, score = 15 / 16,
         expressions =
           [(''neutral'', fl (1 / 20)), (''happy'', fl (9 / 10)), (''sad'', fl (1 / 20))]\<rparr>
        new_canvas)) =
       [DrawDetections (Box 100 80 200 240) 640 480,
        StrokeText ''happy: 90%'' 260 50, FillText ''happy: 90%'' 260 50]
   \<and> fsub 640 120 = 640 - 120
   \<and> fdiv (640 - 120) 2 = (640 - 120) / 2
   \<and> fdiv (fsub 640 (sample_metrics ''24px Arial'' ''happy: 90%'')) 2
         + sample_metrics ''24px Arial'' ''happy: 90%'' / 2
       = 640 / 2"
proof -
  have h: "mset [(''neutral'', fl (1 / 20)), (''happy'', fl (9 / 10)), (''sad'', fl (1 / 20))]
      = mset sample_expressions"
    by (simp add: sample_expressions_def)
  have w: "sample_metrics ''24px Arial'' ''happy: 90%'' = 120"
    by (simp add: sample_metrics_def)
  have pos: "(0::nat) < 640" "(0::nat) < 480"
    by simp_all
  show ?thesis
    using h pos
      happy_90_percent [OF h pos, of sample_metrics "Box 100 80 200 240" "15 / 16" new_canvas]
    by (simp add: w sample_position sample_difference sample_half)
qed

section \<open>Proofs about the FaceDetection component\<close>

subsection \<open>What each part of a step leaves alone\<close>

lemmas view_defs = console_log_def detectExpressions_def requestAnimationFrame_def
  detectExpressions_resume_def loop_cleanup_def loop_effect_def startVideo_def
  webcam_effect_def setModelsLoaded_true_def setIsVideoPlaying_true_def
  handleVideoPlay_def mount_cleanup_def initial_stream_def

lemma callbacks_fields:
  "modelsLoaded (fold (\<lambda>i. detectExpressions True) xs s) = modelsLoaded s"
  "isVideoPlaying (fold (\<lambda>i. detectExpressions True) xs s) = isVideoPlaying s"
  "scheduled (fold (\<lambda>i. detectExpressions True) xs s) = scheduled s"
  "loading (fold (\<lambda>i. detectExpressions True) xs s) = loading s"
  "overlay (fold (\<lambda>i. detectExpressions True) xs s) = overlay s"
  by (induction xs arbitrary: s) (simp_all add: detectExpressions_def console_log_def)

lemma callbacks_in_flight:
  "in_flight (fold (\<lambda>i. detectExpressions True) xs s) \<le> in_flight s + length xs"
proof (induction xs arbitrary: s)
  case Nil
  show ?case by simp
next
  case (Cons x xs)
  have "in_flight (detectExpressions True s) \<le> in_flight s + 1"
    by (simp add: detectExpressions_def console_log_def)
  with Cons [of "detectExpressions True s"] show ?case by simp
qed

lemma run_append: "run m (es @ es') s = run m es' (run m es s)"
  by (induction es arbitrary: s) simp_all

subsection \<open>Readiness is set once\<close>

lemma step_keeps_modelsLoaded: "modelsLoaded s \<Longrightarrow> modelsLoaded (step m e s)"
  by (cases e)
    (simp_all add: view_defs callbacks_fields Let_def
      split: inference.split prod.split option.split)

lemma run_keeps_modelsLoaded: "modelsLoaded s \<Longrightarrow> modelsLoaded (run m es s)"
  by (induction es arbitrary: s) (simp_all add: step_keeps_modelsLoaded)

lemma history_head: "\<exists>t. history m es s = s # t"
  by (cases es) simp_all

lemma rises_history:
  "rises (map modelsLoaded (history m es s)) \<le> (if modelsLoaded s then 0 else 1)"
proof (induction es arbitrary: s)
  case Nil
  show ?case by simp
next
  case (Cons e es)
  obtain t where t: "history m es (step m e s) = step m e s # t"
    using history_head by blast
  have rest: "rises (map modelsLoaded (step m e s # t))
      \<le> (if modelsLoaded (step m e s) then 0 else 1)"
    using Cons [of "step m e s"] unfolding t .
  show ?case
  proof (cases "modelsLoaded s")
    case True
    then have "modelsLoaded (step m e s)" by (rule step_keeps_modelsLoaded)
    with True rest show ?thesis by (simp add: t)
  next
    case False
    show ?thesis
    proof (cases "modelsLoaded (step m e s)")
      case True
      with False rest show ?thesis by (simp add: t)
    next
      case now: False
      with False rest show ?thesis by (simp add: t)
    qed
  qed
qed

subsection \<open>A failed load keeps the view idle\<close>

lemma idle_fields:
  assumes "idle s"
    and "modelsLoaded t = modelsLoaded s" and "in_flight t = in_flight s"
    and "scheduled t = scheduled s" and "console t = console s"
  shows "idle t"
  using assms by (simp add: idle_def)

lemma idle_console_log:
  assumes "idle s" and "msg \<noteq> ''Starting detection loop''"
    and "msg \<noteq> ''Starting detection...''"
  shows "idle (console_log msg s)"
  using assms by (simp add: idle_def console_log_def)

lemma idle_loop_cleanup: "idle s \<Longrightarrow> idle (loop_cleanup s)"
  by (cases "animationFrameId s") (simp_all add: idle_def loop_cleanup_def)

lemma idle_loop_effect: "idle s \<Longrightarrow> idle (loop_effect s)"
  by (simp add: idle_def loop_effect_def Let_def)

lemma idle_setIsVideoPlaying:
  assumes "idle s"
  shows "idle (setIsVideoPlaying_true s)"
proof (cases "\<not> mounted s \<or> isVideoPlaying s")
  case True
  with assms show ?thesis by (simp add: setIsVideoPlaying_true_def)
next
  case False
  have "idle (s\<lparr>isVideoPlaying := True\<rparr>)"
    using assms by (rule idle_fields) simp_all
  then have "idle (loop_effect (loop_cleanup (s\<lparr>isVideoPlaying := True\<rparr>)))"
    by (intro idle_loop_effect idle_loop_cleanup)
  with False show ?thesis by (simp add: setIsVideoPlaying_true_def)
qed

lemma step_loading_other:
  "\<not> is_ModelsSettled e \<Longrightarrow> loading (step m e s) = loading s"
  by (cases e)
    (simp_all add: view_defs callbacks_fields Let_def
      split: inference.split prod.split option.split)

lemma idle_step_other:
  assumes "idle s" and "\<not> is_ModelsSettled e"
  shows "idle (step m e s) \<and> loading (step m e s) = loading s"
proof -
  have "idle (step m e s)"
  proof (cases e)
    case (ModelsSettled a b)
    with assms(2) show ?thesis by simp
  next
    case (CameraGranted sid w h)
    with assms(1) show ?thesis
      by (simp add: idle_def console_log_def Let_def)
  next
    case CameraDenied
    with assms(1) show ?thesis
      by (simp add: idle_def console_log_def)
  next
    case VideoPlay
    show ?thesis
    proof (cases "mounted s")
      case True
      let ?s1 = "console_log ''Video started playing'' s"
      let ?s2 = "?s1\<lparr>overlay :=
          set_size (if videoWidth ?s1 = 0 then 640 else videoWidth ?s1)
                   (if videoHeight ?s1 = 0 then 480 else videoHeight ?s1) (overlay ?s1)\<rparr>"
      have "idle ?s1"
        using assms(1) by (rule idle_console_log) simp_all
      then have "idle ?s2"
        by (rule idle_fields) simp_all
      then have "idle (setIsVideoPlaying_true ?s2)"
        by (rule idle_setIsVideoPlaying)
      with VideoPlay True show ?thesis by (simp add: handleVideoPlay_def Let_def)
    next
      case False
      with assms(1) VideoPlay show ?thesis by simp
    qed
  next
    case (DetectionSettled r)
    with assms(1) show ?thesis by (simp add: idle_def)
  next
    case AnimationFrame
    with assms(1) show ?thesis by (simp add: idle_def)
  next
    case Unmount
    show ?thesis
    proof (cases "mounted s")
      case True
      have "idle (mount_cleanup s)"
        using assms(1) by (simp add: mount_cleanup_def initial_stream_def)
      then have "idle (loop_cleanup (mount_cleanup s))"
        by (rule idle_loop_cleanup)
      then have "idle ((loop_cleanup (mount_cleanup s))\<lparr>mounted := False\<rparr>)"
        by (rule idle_fields) simp_all
      with Unmount True show ?thesis by simp
    next
      case False
      with assms(1) Unmount show ?thesis by simp
    qed
  qed
  with assms(2) show ?thesis by (simp add: step_loading_other)
qed

lemma idle_step_failed:
  assumes "idle s" and "\<not> (a \<and> b)"
  shows "idle (step m (ModelsSettled a b) s)
         \<and> loading (step m (ModelsSettled a b) s) = loading s - 1"
  using assms by (auto simp add: idle_def view_defs Let_def)

lemma idle_step_settled:
  assumes "idle s" and "loading s = 0"
  shows "idle (step m e s) \<and> loading (step m e s) = 0"
proof (cases "is_ModelsSettled e")
  case True
  then obtain a b where "e = ModelsSettled a b" by (cases e) simp_all
  with assms show ?thesis by simp
next
  case False
  with assms idle_step_other [where s = s and e = e and m = m] show ?thesis by simp
qed

lemma idle_run_other:
  assumes "idle s" and "list_all (\<lambda>e. \<not> is_ModelsSettled e) es"
  shows "idle (run m es s) \<and> loading (run m es s) = loading s"
  using assms
proof (induction es arbitrary: s)
  case Nil
  then show ?case by simp
next
  case (Cons e es)
  then have "idle (step m e s) \<and> loading (step m e s) = loading s"
    using idle_step_other [where s = s and e = e and m = m] by simp
  with Cons show ?case by simp
qed

lemma idle_run_settled:
  assumes "idle s" and "loading s = 0"
  shows "idle (run m es s)"
  using assms
proof (induction es arbitrary: s)
  case Nil
  then show ?case by simp
next
  case (Cons e es)
  then have "idle (step m e s) \<and> loading (step m e s) = 0"
    using idle_step_settled [where s = s and e = e and m = m] by simp
  with Cons show ?case by simp
qed

lemma idle_mount: "idle mount"
  by (simp add: idle_def mount_def)

lemma loading_mount: "loading mount = 1"
  by (simp add: mount_def)

lemma failed_load_stays_idle:
  assumes "list_all (\<lambda>e. \<not> is_ModelsSettled e) es" and "\<not> (a \<and> b)"
  shows "idle (run m (es @ ModelsSettled a b # es') mount)"
proof -
  let ?s = "run m es mount"
  have before: "idle ?s \<and> loading ?s = 1"
    using idle_run_other [OF idle_mount assms(1), where m = m] loading_mount by simp
  then have "idle ?s" and "loading ?s = 1"
    by simp_all
  then have "idle (step m (ModelsSettled a b) ?s)
      \<and> loading (step m (ModelsSettled a b) ?s) = 0"
    using idle_step_failed [OF \<open>idle ?s\<close> assms(2), where m = m] by simp
  then have "idle (run m es' (step m (ModelsSettled a b) ?s))"
    using idle_run_settled by blast
  then show ?thesis by (simp add: run_append)
qed

subsection \<open>One chain of iterations\<close>

lemma single_chain_mount: "single_chain mount"
  by (simp add: single_chain_def mount_def)

lemma loop_cleanup_chain:
  "in_flight (loop_cleanup s) = in_flight s"
  "length (scheduled (loop_cleanup s)) \<le> length (scheduled s)"
  "modelsLoaded (loop_cleanup s) = modelsLoaded s"
  "isVideoPlaying (loop_cleanup s) = isVideoPlaying s"
  "mounted (loop_cleanup s) = mounted s"
proof -
  show "length (scheduled (loop_cleanup s)) \<le> length (scheduled s)"
  proof (cases "animationFrameId s")
    case None
    then show ?thesis by (simp add: loop_cleanup_def)
  next
    case (Some i)
    then show ?thesis by (simp add: loop_cleanup_def length_removeAll_less_eq)
  qed
qed (simp_all add: loop_cleanup_def split: option.split)

lemma webcam_effect_chain:
  "in_flight (webcam_effect s) = in_flight s"
  "scheduled (webcam_effect s) = scheduled s"
  "modelsLoaded (webcam_effect s) = modelsLoaded s"
  "isVideoPlaying (webcam_effect s) = isVideoPlaying s"
  "mounted (webcam_effect s) = mounted s"
  by (simp_all add: webcam_effect_def startVideo_def console_log_def)

lemma loop_effect_chain:
  "in_flight (loop_effect s) \<le> in_flight s + 1"
  "\<not> (modelsLoaded s \<and> isVideoPlaying s) \<Longrightarrow> in_flight (loop_effect s) = in_flight s"
  "scheduled (loop_effect s) = scheduled s"
  "modelsLoaded (loop_effect s) = modelsLoaded s"
  "isVideoPlaying (loop_effect s) = isVideoPlaying s"
  by (simp_all add: loop_effect_def detectExpressions_def console_log_def Let_def)

lemma loop_effect_single:
  assumes "in_flight a = 0" and "scheduled a = []"
  shows "single_chain (loop_effect a)"
proof (cases "modelsLoaded a \<and> isVideoPlaying a")
  case True
  have "in_flight (loop_effect a) \<le> 1"
    using loop_effect_chain(1) [of a] assms(1) by simp
  with True assms(2) show ?thesis
    by (simp add: single_chain_def loop_effect_chain(3,4,5))
next
  case False
  then have "in_flight (loop_effect a) = 0"
    using loop_effect_chain(2) [of a] assms(1) by simp
  with assms(2) show ?thesis
    by (simp add: single_chain_def loop_effect_chain(3))
qed

lemma rerender_chain:
  assumes "in_flight s = 0" and "scheduled s = []"
  shows "single_chain (loop_effect (webcam_effect (loop_cleanup s)))"
    and "single_chain (loop_effect (loop_cleanup s))"
proof -
  have quiet: "in_flight (loop_cleanup s) = 0" "scheduled (loop_cleanup s) = []"
    using assms loop_cleanup_chain(1,2) [of s] by simp_all
  then show "single_chain (loop_effect (loop_cleanup s))"
    by (rule loop_effect_single)
  have "in_flight (webcam_effect (loop_cleanup s)) = 0"
    and "scheduled (webcam_effect (loop_cleanup s)) = []"
    using quiet by (simp_all add: webcam_effect_chain)
  then show "single_chain (loop_effect (webcam_effect (loop_cleanup s)))"
    by (rule loop_effect_single)
qed

lemma single_chain_fields:
  assumes "single_chain s"
    and "in_flight t = in_flight s" and "scheduled t = scheduled s"
    and "modelsLoaded t = modelsLoaded s" and "isVideoPlaying t = isVideoPlaying s"
  shows "single_chain t"
  using assms by (simp add: single_chain_def)

lemma single_chain_setModelsLoaded:
  assumes "single_chain s"
  shows "single_chain (setModelsLoaded_true s)"
proof (cases "\<not> mounted s \<or> modelsLoaded s")
  case True
  with assms show ?thesis by (simp add: setModelsLoaded_true_def)
next
  case False
  with assms have "in_flight (s\<lparr>modelsLoaded := True\<rparr>) = 0"
    and "scheduled (s\<lparr>modelsLoaded := True\<rparr>) = []"
    by (simp_all add: single_chain_def)
  then have "single_chain (loop_effect (webcam_effect (loop_cleanup (s\<lparr>modelsLoaded := True\<rparr>))))"
    by (rule rerender_chain(1))
  with False show ?thesis by (simp add: setModelsLoaded_true_def)
qed

lemma single_chain_setIsVideoPlaying:
  assumes "single_chain s"
  shows "single_chain (setIsVideoPlaying_true s)"
proof (cases "\<not> mounted s \<or> isVideoPlaying s")
  case True
  with assms show ?thesis by (simp add: setIsVideoPlaying_true_def)
next
  case False
  with assms have "in_flight (s\<lparr>isVideoPlaying := True\<rparr>) = 0"
    and "scheduled (s\<lparr>isVideoPlaying := True\<rparr>) = []"
    by (simp_all add: single_chain_def)
  then have "single_chain (loop_effect (loop_cleanup (s\<lparr>isVideoPlaying := True\<rparr>)))"
    by (rule rerender_chain(2))
  with False show ?thesis by (simp add: setIsVideoPlaying_true_def)
qed

lemma resume_chain:
  "in_flight (detectExpressions_resume m r s) = in_flight s"
  "length (scheduled (detectExpressions_resume m r s)) \<le> length (scheduled s) + 1"
  "modelsLoaded (detectExpressions_resume m r s) = modelsLoaded s"
  "isVideoPlaying (detectExpressions_resume m r s) = isVideoPlaying s"
  by (simp_all add: detectExpressions_resume_def requestAnimationFrame_def console_log_def
      Let_def split: inference.split prod.split option.split)

lemma single_chain_step:
  assumes "single_chain s"
  shows "single_chain (step m e s)"
proof (cases e)
  case (ModelsSettled a b)
  show ?thesis
  proof (cases "loading s = 0")
    case True
    with assms ModelsSettled show ?thesis by simp
  next
    case False
    let ?s1 = "s\<lparr>loading := loading s - 1\<rparr>"
    have s1: "single_chain ?s1"
      using assms by (rule single_chain_fields) simp_all
    show ?thesis
    proof (cases "a \<and> b")
      case True
      have "single_chain (console_log ''Models loaded successfully!'' ?s1)"
        using s1 by (rule single_chain_fields) (simp_all add: console_log_def)
      then have "single_chain
          (setModelsLoaded_true (console_log ''Models loaded successfully!'' ?s1))"
        by (rule single_chain_setModelsLoaded)
      with ModelsSettled False True show ?thesis by (simp add: Let_def)
    next
      case no: False
      have "single_chain (console_log ''Error loading models:'' ?s1)"
        using s1 by (rule single_chain_fields) (simp_all add: console_log_def)
      with ModelsSettled False no show ?thesis by (auto simp add: Let_def)
    qed
  qed
next
  case (CameraGranted sid w h)
  have "single_chain (step m (CameraGranted sid w h) s)"
    using assms by (rule single_chain_fields) (simp_all add: console_log_def Let_def)
  with CameraGranted show ?thesis by simp
next
  case CameraDenied
  have "single_chain (step m CameraDenied s)"
    using assms by (rule single_chain_fields) (simp_all add: console_log_def)
  with CameraDenied show ?thesis by simp
next
  case VideoPlay
  show ?thesis
  proof (cases "mounted s")
    case True
    let ?s1 = "console_log ''Video started playing'' s"
    let ?s2 = "?s1\<lparr>overlay :=
        set_size (if videoWidth ?s1 = 0 then 640 else videoWidth ?s1)
                 (if videoHeight ?s1 = 0 then 480 else videoHeight ?s1) (overlay ?s1)\<rparr>"
    have "single_chain ?s2"
      using assms by (rule single_chain_fields) (simp_all add: console_log_def)
    then have "single_chain (setIsVideoPlaying_true ?s2)"
      by (rule single_chain_setIsVideoPlaying)
    with VideoPlay True show ?thesis by (simp add: handleVideoPlay_def Let_def)
  next
    case False
    with assms VideoPlay show ?thesis by simp
  qed
next
  case (DetectionSettled r)
  show ?thesis
  proof (cases "in_flight s = 0")
    case True
    with assms DetectionSettled show ?thesis by simp
  next
    case False
    let ?s1 = "s\<lparr>in_flight := in_flight s - 1\<rparr>"
    from assms have bound: "in_flight s + length (scheduled s) \<le> 1"
      and busy: "modelsLoaded s \<and> isVideoPlaying s \<or> in_flight s + length (scheduled s) = 0"
      by (simp_all add: single_chain_def)
    from bound False have one: "in_flight s = 1" and empty: "length (scheduled s) = 0"
      by arith+
    from empty have none: "scheduled s = []"
      by simp
    from busy False have flags: "modelsLoaded s \<and> isVideoPlaying s"
      by auto
    have "in_flight (detectExpressions_resume m r ?s1) = 0"
      using one by (simp add: resume_chain(1))
    moreover have "length (scheduled (detectExpressions_resume m r ?s1)) \<le> 1"
      using none resume_chain(2) [of m r ?s1] by simp
    moreover have "modelsLoaded (detectExpressions_resume m r ?s1)
        \<and> isVideoPlaying (detectExpressions_resume m r ?s1)"
      using flags by (simp add: resume_chain(3,4))
    ultimately have "single_chain (detectExpressions_resume m r ?s1)"
      by (simp add: single_chain_def)
    with DetectionSettled False show ?thesis by simp
  qed
next
  case AnimationFrame
  show ?thesis
  proof (cases "scheduled s")
    case Nil
    have "single_chain (s\<lparr>scheduled := []\<rparr>)"
      using assms by (rule single_chain_fields) (simp_all add: Nil)
    with AnimationFrame Nil show ?thesis by simp
  next
    case (Cons i rest)
    with assms have "rest = []" and "in_flight s = 0" and "modelsLoaded s \<and> isVideoPlaying s"
      by (auto simp add: single_chain_def)
    with Cons AnimationFrame show ?thesis
      by (simp add: single_chain_def detectExpressions_def console_log_def)
  qed
next
  case Unmount
  show ?thesis
  proof (cases "mounted s")
    case True
    let ?s1 = "loop_cleanup (mount_cleanup s)"
    have mc: "single_chain (mount_cleanup s)"
      using assms by (rule single_chain_fields) (simp_all add: mount_cleanup_def initial_stream_def)
    have "in_flight ?s1 + length (scheduled ?s1)
        \<le> in_flight (mount_cleanup s) + length (scheduled (mount_cleanup s))"
      using loop_cleanup_chain(2) [of "mount_cleanup s"] by (simp add: loop_cleanup_chain(1))
    with mc have "single_chain ?s1"
      by (auto simp add: single_chain_def loop_cleanup_chain(3,4))
    then have "single_chain (?s1\<lparr>mounted := False\<rparr>)"
      by (rule single_chain_fields) simp_all
    with Unmount True show ?thesis by simp
  next
    case False
    with assms Unmount show ?thesis by simp
  qed
qed

lemma single_chain_run: "single_chain s \<Longrightarrow> single_chain (run m es s)"
  by (induction es arbitrary: s) (simp_all add: single_chain_step)

lemma settled_nothing_in_flight:
  assumes "in_flight s \<le> 1"
  shows "in_flight (step m (DetectionSettled r) s) = 0"
  using assms by (cases "in_flight s = 0") (simp_all add: resume_chain(1))

lemma overlay_step_other:
  assumes "\<And>r. e \<noteq> DetectionSettled r"
  shows "painted (overlay (step m e s)) = painted (overlay s)
         \<or> painted (overlay (step m e s)) = []"
proof (cases e)
  case (DetectionSettled r)
  with assms [of r] show ?thesis by simp
next
  case VideoPlay
  have "overlay (setIsVideoPlaying_true t) = overlay t" for t
    by (simp add: setIsVideoPlaying_true_def loop_effect_def loop_cleanup_def
        detectExpressions_def console_log_def Let_def split: option.split)
  with VideoPlay show ?thesis
    by (simp add: handleVideoPlay_def Let_def set_size_def)
qed (simp_all add: view_defs callbacks_fields Let_def split: option.split)

lemma no_face_leaves_overlay:
  "overlay (step m (DetectionSettled NoFace) s) = overlay s"
  by (simp add: detectExpressions_resume_def requestAnimationFrame_def console_log_def)

lemma retake_stops_previous:
  assumes "mounted_c s" and "capturedImage s \<noteq> None" and "stream_c s = Some sid"
  shows "sid \<notin> set (live_streams_c (step_c Retake s))"
  using assms by (simp add: startVideo_c_def)

lemma dominant_sample: "dominantExpression sample_expressions = Some (''happy'', fl (9 / 10))"
  using dominant_of_sample [of sample_expressions] by simp

lemma sample_width: "sample_metrics ''24px Arial'' ''happy: 90%'' = 120"
  by (simp add: sample_metrics_def)

lemmas sample_eval = loop_started_def mount_def new_canvas_def view_defs Let_def
  draw_face_def drawDetections_def sample_face_def dominant_sample happy_text sample_width
  sample_position paint_def set_size_def clearRect_def

subsection \<open>The claims about the component\<close>

text \<open>
  Claim C4. Along every trace of a view from its mount, \<^verbatim>\<open>modelsLoaded\<close> changes from false
  to true at most once, and once true it stays true. When the load settles with either
  model failed, then whatever happens before and after, \<^verbatim>\<open>modelsLoaded\<close> is false, no
  inference is awaited, no frame is requested, the detection loop has not been
  started, and the view shows the loading overlay.
\<close>

theorem models_ready_once_fail_closed:
  "rises (map modelsLoaded (history m trace mount)) \<le> 1
   \<and> (modelsLoaded (run m trace mount) \<longrightarrow> modelsLoaded (run m (trace @ suffix) mount))
   \<and> (list_all (\<lambda>e. \<not> is_ModelsSettled e) before \<and> \<not> (detector_ok \<and> expression_ok) \<longrightarrow>
        \<not> modelsLoaded
            (run m (before @ ModelsSettled detector_ok expression_ok # after) mount)
        \<and> in_flight
            (run m (before @ ModelsSettled detector_ok expression_ok # after) mount) = 0
        \<and> scheduled
            (run m (before @ ModelsSettled detector_ok expression_ok # after) mount) = []
        \<and> ''Starting detection loop'' \<notin> set (console
            (run m (before @ ModelsSettled detector_ok expression_ok # after) mount))
        \<and> shows_loading
            (run m (before @ ModelsSettled detector_ok expression_ok # after) mount))"
proof (intro conjI impI)
  show "rises (map modelsLoaded (history m trace mount)) \<le> 1"
    using rises_history [of m trace mount] by (simp split: if_splits)
next
  assume "modelsLoaded (run m trace mount)"
  then show "modelsLoaded (run m (trace @ suffix) mount)"
    by (simp add: run_append run_keeps_modelsLoaded)
next
  let ?s = "run m (before @ ModelsSettled detector_ok expression_ok # after) mount"
  assume "list_all (\<lambda>e. \<not> is_ModelsSettled e) before \<and> \<not> (detector_ok \<and> expression_ok)"
  then have idle: "idle ?s"
    using failed_load_stays_idle by blast
  from idle show "\<not> modelsLoaded ?s" by (simp add: idle_def)
  from idle show "in_flight ?s = 0" by (simp add: idle_def)
  from idle show "scheduled ?s = []" by (simp add: idle_def)
  from idle show "''Starting detection loop'' \<notin> set (console ?s)" by (simp add: idle_def)
  from idle show "shows_loading ?s" by (simp add: idle_def shows_loading_def)
qed

theorem models_ready_once_fail_closed_witness:
  "modelsLoaded (run sample_metrics [ModelsSettled True True] mount)
   \<and> modelsLoaded (run sample_metrics ([ModelsSettled True True] @ [VideoPlay, Unmount]) mount)
   \<and> list_all (\<lambda>e. \<not> is_ModelsSettled e) [VideoPlay] \<and> \<not> (True \<and> False)
   \<and> \<not> modelsLoaded
        (run sample_metrics
          ([VideoPlay] @ ModelsSettled True False # [CameraGranted 1 640 480, AnimationFrame])
          mount)
   \<and> shows_loading
        (run sample_metrics
          ([VideoPlay] @ ModelsSettled True False # [CameraGranted 1 640 480, AnimationFrame])
          mount)"
proof -
  have h: "list_all (\<lambda>e. \<not> is_ModelsSettled e) [VideoPlay] \<and> \<not> (True \<and> False)"
    by simp
  have ready: "modelsLoaded (run sample_metrics [ModelsSettled True True] mount)"
    by (simp add: sample_eval)
  show ?thesis
    using h ready models_ready_once_fail_closed
      [where before = "[VideoPlay]" and detector_ok = True and expression_ok = False
         and after = "[CameraGranted 1 640 480, AnimationFrame]" and m = sample_metrics
         and trace = "[ModelsSettled True True]" and suffix = "[VideoPlay, Unmount]"]
    by blast
qed

text \<open>
  Claim C5. In every state a view reaches from its mount, at most one inference is
  awaited, and a frame is requested only while none is awaited. When an inference has
  settled and the rest of its iteration has run (the rendering and the request for the
  next frame), no inference is awaited: the next one starts in a later animation frame.
  The surface is painted only in the step that delivers an inference result; any other
  step leaves it as it is or erases it.
\<close>

theorem one_inference_at_a_time:
  "in_flight (run m es mount) + length (scheduled (run m es mount)) \<le> 1
   \<and> in_flight (step m (DetectionSettled r) (run m es mount)) = 0
   \<and> ((\<forall>r. e \<noteq> DetectionSettled r) \<longrightarrow>
        painted (overlay (step m e s)) = painted (overlay s)
        \<or> painted (overlay (step m e s)) = [])"
proof -
  have chain: "single_chain (run m es mount)"
    using single_chain_mount by (rule single_chain_run)
  then have bound: "in_flight (run m es mount) + length (scheduled (run m es mount)) \<le> 1"
    by (simp add: single_chain_def)
  then have "in_flight (run m es mount) \<le> 1"
    by simp
  then have "in_flight (step m (DetectionSettled r) (run m es mount)) = 0"
    by (rule settled_nothing_in_flight)
  moreover have "(\<forall>r. e \<noteq> DetectionSettled r) \<longrightarrow>
        painted (overlay (step m e s)) = painted (overlay s)
        \<or> painted (overlay (step m e s)) = []"
    using overlay_step_other [of e m s] by blast
  ultimately show ?thesis
    using bound by blast
qed

theorem one_inference_at_a_time_witness:
  "(\<forall>r. AnimationFrame \<noteq> DetectionSettled r)
   \<and> in_flight (run sample_metrics loop_started mount) = 1
   \<and> in_flight (run sample_metrics loop_started mount)
       + length (scheduled (run sample_metrics loop_started mount)) \<le> 1
   \<and> in_flight (step sample_metrics (DetectionSettled NoFace)
         (run sample_metrics loop_started mount)) = 0
   \<and> (painted (overlay (step sample_metrics AnimationFrame face_then_no_face))
         = painted (overlay face_then_no_face)
       \<or> painted (overlay (step sample_metrics AnimationFrame face_then_no_face)) = [])"
proof -
  have h: "\<forall>r. AnimationFrame \<noteq> DetectionSettled r"
    by simp
  have busy: "in_flight (run sample_metrics loop_started mount) = 1"
    by (simp add: sample_eval)
  show ?thesis
    using h busy one_inference_at_a_time
      [where e = AnimationFrame and m = sample_metrics and es = loop_started
         and s = face_then_no_face and r = NoFace]
    by blast
qed

text \<open>
  Claim C3 at a failing input. A face is found and drawn, a frame passes, and the next
  inference finds no face: the branch for no face only logs, so the box and the text of
  the earlier frame are still on the surface.
\<close>

theorem no_face_keeps_previous_drawing:
  "painted (overlay face_then_no_face) =
     [DrawDetections (Box 100 80 200 240) 640 480,
      StrokeText ''happy: 90%'' 260 50, FillText ''happy: 90%'' 260 50]"
  by (simp add: face_then_no_face_def sample_eval)

text \<open>
  Claim C6 at a failing input. The view is unmounted while the first inference is
  awaited: the cleanup finds no frame to cancel. When the inference then settles with a
  face, the detached canvas is painted, a frame is requested, and at the next animation
  frame the callback runs (and returns at its first check).
\<close>

theorem unmount_mid_flight_still_draws:
  "\<not> mounted unmounted_mid_flight
   \<and> in_flight unmounted_mid_flight = 1
   \<and> painted (overlay unmounted_mid_flight) = []
   \<and> painted (overlay
        (step sample_metrics (DetectionSettled (Face sample_face)) unmounted_mid_flight)) =
       [DrawDetections (Box 100 80 200 240) 640 480,
        StrokeText ''happy: 90%'' 260 50, FillText ''happy: 90%'' 260 50]
   \<and> scheduled
        (step sample_metrics (DetectionSettled (Face sample_face)) unmounted_mid_flight) = [1]
   \<and> last (console
        (step sample_metrics AnimationFrame
          (step sample_metrics (DetectionSettled (Face sample_face)) unmounted_mid_flight)))
       = ''Video or canvas not ready, or video not playing''"
  by (simp add: unmounted_mid_flight_def sample_eval)

text \<open>
  Claim C7 at a failing input. A view is mounted, the camera is granted, the view is
  unmounted: the cleanup reads the \<^verbatim>\<open>stream\<close> of the first render, which is \<^verbatim>\<open>null\<close>, and the
  tracks of the granted stream stay live. This holds for both components.
\<close>

theorem unmount_leaves_stream_live:
  "live_streams_c (run_c [Granted 1, Leave] mount_c) = [1]
   \<and> live_streams
       (run sample_metrics [ModelsSettled True True, CameraGranted 1 640 480, Unmount] mount)
     = [1]"
  by (simp add: mount_c_def startVideo_c_def first_render_c_def videoRef_current_def
      sample_eval)

end
